theory Spec2Isabelle
  imports Main
begin

section \<open>The router initializer of \<open>packages/router/src/router_module.ts\<close>\<close>

text \<open>
  The class \<open>RouterInitializer\<close> coordinates the application bootstrap with the first
  navigation of the router. It has three entry points: \<open>appInitializer\<close> (run as an
  \<open>APP_INITIALIZER\<close>, returns a promise the bootstrap waits for), \<open>bootstrapListener\<close>
  (run as an \<open>APP_BOOTSTRAP_LISTENER\<close> for each bootstrapped root component) and
  \<open>ngOnDestroy\<close>. The body of \<open>appInitializer\<close> runs in two parts: the synchronous part,
  and the callback given to \<open>p.then\<close>, which runs once the \<open>LOCATION_INITIALIZED\<close>
  promise has settled. The callback may install the closure
  \<open>router.hooks.afterPreactivation\<close>, which the router calls on every navigation.

  The embedding is a state machine: a record \<open>world\<close> holds the three private fields of
  the class and what the class can reach through the injector; each entry point, the
  callback and the hook closure is a function on \<open>world\<close>. Every call the class makes on
  a collaborator is appended to \<open>trace\<close>, in program order. A lookup in a destroyed
  injector throws: an operation that makes one returns the error with the state it leaves.
\<close>

subsection \<open>Data\<close>

text \<open>A \<open>ComponentRef\<close> is compared with \<open>!==\<close> only: an opaque handle.\<close>

type_synonym componentRef = nat

text \<open>The tokens the class looks up with \<open>this.injector.get\<close>.\<close>

datatype token =
    LOCATION_INITIALIZED
  | Router
  | ROUTER_CONFIGURATION
  | RouterPreloader
  | RouterScroller
  | ApplicationRef

text \<open>
  What the injector hands out and the class reads: \<open>opts.initialNavigation\<close> of the
  \<open>ROUTER_CONFIGURATION\<close> (a string at run time, \<open>None\<close> for \<open>undefined\<close>; the type
  \<open>InitialNavigation\<close> lists three strings, and nothing checks a value at run time) and
  \<open>ref.components\<close> of the \<open>ApplicationRef\<close>.
\<close>

record injector =
  opts_initialNavigation :: "string option"
  ref_components :: "componentRef list"

text \<open>The calls of the class on its collaborators, as they appear in the source.\<close>

datatype call =
    InjectorGet token
  | RouterSetUpLocationChangeListener
  | RouterHooksAfterPreactivationAssigned nat
  | RouterInitialNavigation
  | PreloaderSetUpPreloading
  | RouterScrollerInit
  | RouterResetRootComponentType
  | ResolveTrue nat
  | SubjectNext
  | SubjectComplete

text \<open>
  The promise returned by one call of \<open>appInitializer\<close>: \<open>AwaitingLocation\<close> while the
  callback of \<open>p.then\<close> has not run; afterwards it follows the promise the callback
  returned (\<open>res\<close>, or \<open>Promise.resolve(true)\<close>).
\<close>

datatype promise = AwaitingLocation | Pending | Fulfilled | Rejected

text \<open>
  The \<open>Subject\<close> of rxjs (field \<open>resultOfPreactivationDone\<close>) and the notifications an
  observer receives. \<open>observers\<close> holds the indices of the subscribed navigations.
\<close>

datatype notification = Next | Complete

record subject =
  isStopped :: bool
  observers :: "nat list"

text \<open>What the hook closure returns: \<open>this.resultOfPreactivationDone\<close> or \<open>of(null)\<close>.\<close>

datatype hook_result = ResultOfPreactivationDone | OfNull

text \<open>
  The state. \<open>promises\<close> has one entry per call of \<open>appInitializer\<close>, in call order;
  \<open>afterPreactivation\<close> is \<open>router.hooks.afterPreactivation\<close>: \<open>None\<close> while the class has
  not assigned it, \<open>Some i\<close> for the closure created by the callback of the \<open>i\<close>-th call
  (its \<open>resolve\<close> settles \<open>promises ! i\<close>). \<open>navigations\<close> has one entry per call of that
  closure by the router: what it returned, and the notifications the router has received
  since from the returned observable.
\<close>

record world =
  initNavigation :: bool
  destroyed :: bool
  resultOfPreactivationDone :: subject
  promises :: "promise list"
  afterPreactivation :: "nat option"
  navigations :: "(hook_result \<times> notification list) list"
  trace :: "call list"

text \<open>A fresh \<open>RouterInitializer\<close>: the field initializers of the class.\<close>

definition init :: world where
  "init = \<lparr> initNavigation = False, destroyed = False,
            resultOfPreactivationDone = \<lparr> isStopped = False, observers = [] \<rparr>,
            promises = [], afterPreactivation = None, navigations = [], trace = [] \<rparr>"

subsection \<open>Collaborators\<close>

definition call :: "call \<Rightarrow> world \<Rightarrow> world" where
  "call c w = w\<lparr> trace := trace w @ [c] \<rparr>"

text \<open>
  \<open>this.injector.get\<close>. The injector that owns the class calls \<open>ngOnDestroy\<close> when it is
  destroyed, and the callback of \<open>appInitializer\<close> reads the field \<open>destroyed\<close> so: "If
  the injector was destroyed, the DI lookups below will fail." A lookup made while
  \<open>destroyed\<close> is set is in the trace and throws; the caller's remaining statements do
  not run.
\<close>

datatype error = InjectorDestroyed

type_synonym outcome = "(error \<times> world) + world"

definition injector_get :: "token \<Rightarrow> world \<Rightarrow> outcome" where
  "injector_get t w =
     (let w1 = call (InjectorGet t) w
      in if destroyed w then Inl (InjectorDestroyed, w1) else Inr w1)"

text \<open>Sequencing: the statements after one that throws are skipped.\<close>

definition and_then :: "outcome \<Rightarrow> (world \<Rightarrow> outcome) \<Rightarrow> outcome" where
  "and_then r f = (case r of Inl x \<Rightarrow> Inl x | Inr w \<Rightarrow> f w)"

text \<open>The state an operation leaves, whether it returned or threw.\<close>

definition state_of :: "outcome \<Rightarrow> world" where
  "state_of r = (case r of Inl (e, w) \<Rightarrow> w | Inr w \<Rightarrow> w)"

text \<open>\<open>resolve(true)\<close> of the promise \<open>res\<close> created by the callback of call \<open>i\<close>.\<close>

definition resolve :: "nat \<Rightarrow> world \<Rightarrow> world" where
  "resolve i w = call (ResolveTrue i) (w\<lparr> promises := (promises w)[i := Fulfilled] \<rparr>)"

text \<open>The notification \<open>n\<close> reaches the navigations whose indices are in \<open>obs\<close>.\<close>

definition deliver ::
  "notification \<Rightarrow> nat list \<Rightarrow> (hook_result \<times> notification list) list
     \<Rightarrow> (hook_result \<times> notification list) list" where
  "deliver n obs navs =
     map (\<lambda>(k, nav). if k \<in> set obs then (fst nav, snd nav @ [n]) else nav)
       (enumerate 0 navs)"

text \<open>
  Modelled from the spec: the class \<open>Subject\<close> is imported from \<open>rxjs\<close> and is not among the
  sources. The spec describes it as "a single-fire, repeatable-subscriber notification
  primitive (a broadcast completion signal)" that "fires exactly once per coordinator
  lifetime, then stays in a completed state such that any late subscriber also observes
  completion". So: \<open>next\<close> reaches the current observers unless the subject is stopped;
  \<open>complete\<close> stops it once, notifies the current observers and drops them; \<open>subscribe\<close> on a
  stopped subject completes the subscriber at once.
\<close>

definition subject_next :: "world \<Rightarrow> world" where
  "subject_next w =
     (let s = resultOfPreactivationDone w; w1 = call SubjectNext w
      in if isStopped s then w1
         else w1\<lparr> navigations := deliver Next (observers s) (navigations w1) \<rparr>)"

definition subject_complete :: "world \<Rightarrow> world" where
  "subject_complete w =
     (let s = resultOfPreactivationDone w; w1 = call SubjectComplete w
      in if isStopped s then w1
         else w1\<lparr> resultOfPreactivationDone := \<lparr> isStopped = True, observers = [] \<rparr>,
                  navigations := deliver Complete (observers s) (navigations w1) \<rparr>)"

definition subject_subscribe :: "nat \<Rightarrow> world \<Rightarrow> world" where
  "subject_subscribe k w =
     (let s = resultOfPreactivationDone w
      in if isStopped s then w\<lparr> navigations := deliver Complete [k] (navigations w) \<rparr>
         else w\<lparr> resultOfPreactivationDone := s\<lparr> observers := observers s @ [k] \<rparr> \<rparr>)"

subsection \<open>The class\<close>

text \<open>
  \<open>appInitializer\<close>, synchronous part: the lookup of \<open>LOCATION_INITIALIZED\<close>, and the
  promise \<open>p.then(...)\<close> it returns.
\<close>

definition appInitializer :: "world \<Rightarrow> outcome" where
  "appInitializer w =
     and_then (injector_get LOCATION_INITIALIZED w)
       (\<lambda>w1. Inr (w1\<lparr> promises := promises w1 @ [AwaitingLocation] \<rparr>))"

text \<open>
  The callback of \<open>p.then\<close> in the \<open>i\<close>-th call of \<open>appInitializer\<close>. The three-way branch
  on \<open>opts.initialNavigation\<close> compares with \<open>===\<close>; every other value, \<open>undefined\<close>
  included, takes the last \<open>else\<close>.
\<close>

definition appInitializer_then :: "injector \<Rightarrow> nat \<Rightarrow> world \<Rightarrow> outcome" where
  "appInitializer_then env i w =
     (if destroyed w then Inr (w\<lparr> promises := (promises w)[i := Fulfilled] \<rparr>)
      else
        and_then (injector_get Router (w\<lparr> promises := (promises w)[i := Pending] \<rparr>))
          (\<lambda>w2. and_then (injector_get ROUTER_CONFIGURATION w2)
            (\<lambda>w3. Inr
              (if opts_initialNavigation env = Some ''disabled'' then
                 resolve i (call RouterSetUpLocationChangeListener w3)
               else if opts_initialNavigation env = Some ''enabledBlocking'' then
                 call RouterInitialNavigation
                   (call (RouterHooksAfterPreactivationAssigned i)
                      (w3\<lparr> afterPreactivation := Some i \<rparr>))
               else resolve i w3))))"

text \<open>
  The closure assigned to \<open>router.hooks.afterPreactivation\<close> by the callback of call
  \<open>i\<close>: its result and the state after it.
\<close>

definition afterPreactivation_hook :: "nat \<Rightarrow> world \<Rightarrow> hook_result \<times> world" where
  "afterPreactivation_hook i w =
     (if \<not> initNavigation w then
        (ResultOfPreactivationDone, resolve i (w\<lparr> initNavigation := True \<rparr>))
      else (OfNull, w))"

text \<open>\<open>ref.components[0]\<close>: \<open>undefined\<close> (here \<open>None\<close>) when the array is empty.\<close>

definition components_0 :: "injector \<Rightarrow> componentRef option" where
  "components_0 env = (case ref_components env of [] \<Rightarrow> None | c # _ \<Rightarrow> Some c)"

text \<open>
  \<open>bootstrapListener\<close> starts with its five lookups and does not read \<open>destroyed\<close>
  before them.
\<close>

definition bootstrapListener :: "injector \<Rightarrow> componentRef \<Rightarrow> world \<Rightarrow> outcome" where
  "bootstrapListener env bootstrappedComponentRef w =
     and_then (injector_get ROUTER_CONFIGURATION w)
       (\<lambda>w1. and_then (injector_get RouterPreloader w1)
       (\<lambda>w2. and_then (injector_get RouterScroller w2)
       (\<lambda>w3. and_then (injector_get Router w3)
       (\<lambda>w4. and_then (injector_get ApplicationRef w4)
       (\<lambda>w5. Inr
         (if Some bootstrappedComponentRef \<noteq> components_0 env then w5
          else
            let w6 = (if opts_initialNavigation env = Some ''enabledNonBlocking''
                         \<or> opts_initialNavigation env = None
                      then call RouterInitialNavigation w5 else w5);
                w7 = call PreloaderSetUpPreloading w6;
                w8 = call RouterScrollerInit w7;
                w9 = call RouterResetRootComponentType w8
            in subject_complete (subject_next w9)))))))"

definition ngOnDestroy :: "world \<Rightarrow> world" where
  "ngOnDestroy w = w\<lparr> destroyed := True \<rparr>"

subsection \<open>The router reaching pre-activation\<close>

text \<open>
  Modelled from the spec: the router (\<open>router.ts\<close>) is not among the sources. The spec
  describes its extension point as one "that may return a deferred/thenable to pause
  internal progress": a navigation that reaches pre-activation calls the installed
  closure and subscribes to what it returns, and goes on when that emits. \<open>of(null)\<close>
  emits and completes at once. While the class has assigned no closure, the call does not
  reach the class.
\<close>

definition preActivation :: "world \<Rightarrow> world" where
  "preActivation w =
     (case afterPreactivation w of
        None \<Rightarrow> w
      | Some i \<Rightarrow>
          (case afterPreactivation_hook i w of
             (OfNull, w1) \<Rightarrow>
               w1\<lparr> navigations := navigations w1 @ [(OfNull, [Next, Complete])] \<rparr>
           | (ResultOfPreactivationDone, w1) \<Rightarrow>
               subject_subscribe (length (navigations w1))
                 (w1\<lparr> navigations := navigations w1 @ [(ResultOfPreactivationDone, [])] \<rparr>)))"

text \<open>A navigation is paused while it has received no \<open>Next\<close>.\<close>

definition paused :: "hook_result \<times> notification list \<Rightarrow> bool" where
  "paused nav = (Next \<notin> set (snd nav))"

subsection \<open>Runs\<close>

text \<open>
  The events of a run: a call of an entry point, the \<open>LOCATION_INITIALIZED\<close> promise
  settling for the \<open>i\<close>-th call of \<open>appInitializer\<close> (its callback runs, once), and a
  navigation reaching pre-activation. An entry point that throws leaves the state it had
  reached, and the run goes on; an exception in the callback of \<open>p.then\<close> rejects the
  promise of the call.
\<close>

datatype event =
    AppInitializer
  | LocationInitialized nat
  | PreActivation
  | BootstrapListener componentRef
  | NgOnDestroy

fun step :: "injector \<Rightarrow> event \<Rightarrow> world \<Rightarrow> world" where
  "step env AppInitializer w = state_of (appInitializer w)"
| "step env (LocationInitialized i) w =
     (if i < length (promises w) \<and> promises w ! i = AwaitingLocation
      then (case appInitializer_then env i w of
              Inl (e, w1) \<Rightarrow> w1\<lparr> promises := (promises w1)[i := Rejected] \<rparr>
            | Inr w1 \<Rightarrow> w1)
      else w)"
| "step env PreActivation w = preActivation w"
| "step env (BootstrapListener r) w = state_of (bootstrapListener env r w)"
| "step env NgOnDestroy w = ngOnDestroy w"

fun run :: "injector \<Rightarrow> event list \<Rightarrow> world \<Rightarrow> world" where
  "run env [] w = w"
| "run env (e # es) w = run env es (step env e w)"

text \<open>The lookups in a trace, and how often a call occurs in it.\<close>

fun is_lookup :: "call \<Rightarrow> bool" where
  "is_lookup (InjectorGet t) = True"
| "is_lookup c = False"

definition lookups :: "call list \<Rightarrow> call list" where
  "lookups cs = filter is_lookup cs"

definition calls :: "call \<Rightarrow> call list \<Rightarrow> nat" where
  "calls c cs = count_list cs c"

text \<open>
  The type \<open>InitialNavigation\<close> of the source: the three strings the compiler accepts for
  \<open>opts.initialNavigation\<close>.
\<close>

definition InitialNavigation :: "string set" where
  "InitialNavigation = {''disabled'', ''enabledBlocking'', ''enabledNonBlocking''}"

text \<open>
  Four applications with the root components \<open>7\<close> (the first) and \<open>8\<close>, one per value of
  \<open>initialNavigation\<close> the examples below use: unset, \<open>'disabled'\<close>, \<open>'enabledBlocking'\<close>
  and the legacy string \<open>'enabled'\<close>, which the comment on \<open>ExtraOptions\<close> still lists.
\<close>

definition default_app :: injector where
  "default_app = \<lparr> opts_initialNavigation = None, ref_components = [7, 8] \<rparr>"

definition disabled_app :: injector where
  "disabled_app = \<lparr> opts_initialNavigation = Some ''disabled'', ref_components = [7, 8] \<rparr>"

definition blocking_app :: injector where
  "blocking_app = \<lparr> opts_initialNavigation = Some ''enabledBlocking'', ref_components = [7, 8] \<rparr>"

definition legacy_app :: injector where
  "legacy_app = \<lparr> opts_initialNavigation = Some ''enabled'', ref_components = [7, 8] \<rparr>"

text \<open>The events of a run before the first \<open>ngOnDestroy\<close>.\<close>

definition before_destroy :: "event list \<Rightarrow> event list" where
  "before_destroy es = takeWhile (\<lambda>e. e \<noteq> NgOnDestroy) es"


section \<open>Properties\<close>

subsection \<open>The operations in closed form\<close>

lemma destroyed_call: "destroyed (call c w) = destroyed w"
  by (simp add: call_def)

lemma appInitializer_eq:
  "appInitializer w =
     (if destroyed w then Inl (InjectorDestroyed, call (InjectorGet LOCATION_INITIALIZED) w)
      else Inr ((call (InjectorGet LOCATION_INITIALIZED) w)
                  \<lparr> promises := promises w @ [AwaitingLocation] \<rparr>))"
  by (simp add: appInitializer_def injector_get_def and_then_def call_def Let_def)

lemma appInitializer_then_eq:
  "appInitializer_then env i w =
     Inr (if destroyed w then w\<lparr> promises := (promises w)[i := Fulfilled] \<rparr>
          else
            let w1 = w\<lparr> promises := (promises w)[i := Pending] \<rparr>;
                w2 = call (InjectorGet Router) w1;
                w3 = call (InjectorGet ROUTER_CONFIGURATION) w2
            in if opts_initialNavigation env = Some ''disabled'' then
                 resolve i (call RouterSetUpLocationChangeListener w3)
               else if opts_initialNavigation env = Some ''enabledBlocking'' then
                 call RouterInitialNavigation
                   (call (RouterHooksAfterPreactivationAssigned i)
                      (w3\<lparr> afterPreactivation := Some i \<rparr>))
               else resolve i w3)"
  by (simp add: appInitializer_then_def injector_get_def and_then_def call_def Let_def)

lemma bootstrapListener_eq:
  "bootstrapListener env r w =
     (if destroyed w then Inl (InjectorDestroyed, call (InjectorGet ROUTER_CONFIGURATION) w)
      else Inr
        (let w5 = call (InjectorGet ApplicationRef) (call (InjectorGet Router)
                   (call (InjectorGet RouterScroller) (call (InjectorGet RouterPreloader)
                   (call (InjectorGet ROUTER_CONFIGURATION) w))))
         in if Some r \<noteq> components_0 env then w5
            else
              let w6 = (if opts_initialNavigation env = Some ''enabledNonBlocking''
                           \<or> opts_initialNavigation env = None
                        then call RouterInitialNavigation w5 else w5);
                  w7 = call PreloaderSetUpPreloading w6;
                  w8 = call RouterScrollerInit w7;
                  w9 = call RouterResetRootComponentType w8
              in subject_complete (subject_next w9)))"
  by (simp add: bootstrapListener_def injector_get_def and_then_def call_def Let_def)

lemmas op_defs = appInitializer_eq appInitializer_then_eq bootstrapListener_eq state_of_def
  call_def resolve_def subject_next_def subject_complete_def subject_subscribe_def
  afterPreactivation_hook_def ngOnDestroy_def preActivation_def Let_def

lemmas app_defs = default_app_def disabled_app_def blocking_app_def legacy_app_def
  components_0_def init_def

subsection \<open>What each event appends to the trace\<close>

lemma trace_appInitializer:
  "trace (step env AppInitializer w) = trace w @ [InjectorGet LOCATION_INITIALIZED]"
  by (simp add: op_defs)

lemma trace_appInitializer_then:
  "trace (step env (LocationInitialized i) w) = trace w @
     (if i < length (promises w) \<and> promises w ! i = AwaitingLocation \<and> \<not> destroyed w
      then [InjectorGet Router, InjectorGet ROUTER_CONFIGURATION] @
        (if opts_initialNavigation env = Some ''disabled''
           then [RouterSetUpLocationChangeListener, ResolveTrue i]
         else if opts_initialNavigation env = Some ''enabledBlocking''
           then [RouterHooksAfterPreactivationAssigned i, RouterInitialNavigation]
         else [ResolveTrue i])
      else [])"
  by (simp add: op_defs)

lemma trace_preActivation:
  "trace (step env PreActivation w) = trace w @
     (case afterPreactivation w of None \<Rightarrow> []
      | Some i \<Rightarrow> if initNavigation w then [] else [ResolveTrue i])"
  by (simp add: op_defs split: option.splits)

lemma trace_bootstrapListener:
  "trace (step env (BootstrapListener r) w) = trace w @
     (if destroyed w then [InjectorGet ROUTER_CONFIGURATION]
      else
        [InjectorGet ROUTER_CONFIGURATION, InjectorGet RouterPreloader,
         InjectorGet RouterScroller, InjectorGet Router, InjectorGet ApplicationRef] @
        (if Some r \<noteq> components_0 env then []
         else (if opts_initialNavigation env = Some ''enabledNonBlocking''
                  \<or> opts_initialNavigation env = None
               then [RouterInitialNavigation] else []) @
              [PreloaderSetUpPreloading, RouterScrollerInit, RouterResetRootComponentType,
               SubjectNext, SubjectComplete]))"
  by (simp add: op_defs)

lemma trace_ngOnDestroy: "trace (step env NgOnDestroy w) = trace w"
  by (simp add: op_defs)

lemmas trace_simps = trace_appInitializer trace_appInitializer_then trace_preActivation
  trace_bootstrapListener trace_ngOnDestroy

subsection \<open>Delivering a notification\<close>

lemma length_deliver: "length (deliver n obs navs) = length navs"
  by (simp add: deliver_def)

lemma nth_deliver:
  "k < length navs \<Longrightarrow>
   deliver n obs navs ! k
     = (if k \<in> set obs then (fst (navs ! k), snd (navs ! k) @ [n]) else navs ! k)"
  by (simp add: deliver_def nth_enumerate_eq)

lemma map_fst_deliver: "map fst (deliver n obs navs) = map fst navs"
  by (rule nth_equalityI) (simp_all add: length_deliver nth_deliver)

lemma deliver_last:
  "deliver n [length navs] (navs @ [x]) = navs @ [(fst x, snd x @ [n])]"
  by (rule nth_equalityI) (auto simp add: length_deliver nth_deliver nth_append)

subsection \<open>The fields after each event\<close>

lemma appInitializer_fields:
  "initNavigation (step env AppInitializer w) = initNavigation w"
  "destroyed (step env AppInitializer w) = destroyed w"
  "resultOfPreactivationDone (step env AppInitializer w) = resultOfPreactivationDone w"
  "promises (step env AppInitializer w)
     = (if destroyed w then promises w else promises w @ [AwaitingLocation])"
  "afterPreactivation (step env AppInitializer w) = afterPreactivation w"
  "navigations (step env AppInitializer w) = navigations w"
  by (simp_all add: appInitializer_eq state_of_def call_def)

lemma locationInitialized_fields:
  "initNavigation (step env (LocationInitialized i) w) = initNavigation w"
  "destroyed (step env (LocationInitialized i) w) = destroyed w"
  "resultOfPreactivationDone (step env (LocationInitialized i) w) = resultOfPreactivationDone w"
  "navigations (step env (LocationInitialized i) w) = navigations w"
  "promises (step env (LocationInitialized i) w)
     = (if i < length (promises w) \<and> promises w ! i = AwaitingLocation
        then (promises w)
               [i := (if \<not> destroyed w
                         \<and> opts_initialNavigation env = Some ''enabledBlocking''
                      then Pending else Fulfilled)]
        else promises w)"
  "afterPreactivation (step env (LocationInitialized i) w)
     = (if i < length (promises w) \<and> promises w ! i = AwaitingLocation \<and> \<not> destroyed w
           \<and> opts_initialNavigation env = Some ''enabledBlocking''
        then Some i else afterPreactivation w)"
  by (simp_all add: appInitializer_then_eq call_def resolve_def Let_def)

lemma ngOnDestroy_fields:
  "initNavigation (step env NgOnDestroy w) = initNavigation w"
  "destroyed (step env NgOnDestroy w)"
  "resultOfPreactivationDone (step env NgOnDestroy w) = resultOfPreactivationDone w"
  "promises (step env NgOnDestroy w) = promises w"
  "afterPreactivation (step env NgOnDestroy w) = afterPreactivation w"
  "navigations (step env NgOnDestroy w) = navigations w"
  by (simp_all add: ngOnDestroy_def)

lemma bootstrapListener_fields:
  "initNavigation (step env (BootstrapListener r) w) = initNavigation w"
  "destroyed (step env (BootstrapListener r) w) = destroyed w"
  "promises (step env (BootstrapListener r) w) = promises w"
  "afterPreactivation (step env (BootstrapListener r) w) = afterPreactivation w"
  "resultOfPreactivationDone (step env (BootstrapListener r) w)
     = (if \<not> destroyed w \<and> Some r = components_0 env
           \<and> \<not> isStopped (resultOfPreactivationDone w)
        then \<lparr> isStopped = True, observers = [] \<rparr> else resultOfPreactivationDone w)"
  "navigations (step env (BootstrapListener r) w)
     = (if \<not> destroyed w \<and> Some r = components_0 env
           \<and> \<not> isStopped (resultOfPreactivationDone w)
        then deliver Complete (observers (resultOfPreactivationDone w))
               (deliver Next (observers (resultOfPreactivationDone w)) (navigations w))
        else navigations w)"
  by (simp_all add: bootstrapListener_eq state_of_def call_def subject_next_def
        subject_complete_def Let_def)

lemma preActivation_fields:
  "destroyed (step env PreActivation w) = destroyed w"
  "afterPreactivation (step env PreActivation w) = afterPreactivation w"
  "initNavigation (step env PreActivation w)
     = (initNavigation w \<or> afterPreactivation w \<noteq> None)"
  "promises (step env PreActivation w)
     = (case afterPreactivation w of
          None \<Rightarrow> promises w
        | Some i \<Rightarrow> if initNavigation w then promises w else (promises w)[i := Fulfilled])"
  "navigations (step env PreActivation w)
     = (case afterPreactivation w of
          None \<Rightarrow> navigations w
        | Some i \<Rightarrow>
            if initNavigation w then navigations w @ [(OfNull, [Next, Complete])]
            else navigations w @
              [(ResultOfPreactivationDone,
                if isStopped (resultOfPreactivationDone w) then [Complete] else [])])"
  "resultOfPreactivationDone (step env PreActivation w)
     = (case afterPreactivation w of
          None \<Rightarrow> resultOfPreactivationDone w
        | Some i \<Rightarrow>
            if initNavigation w \<or> isStopped (resultOfPreactivationDone w)
            then resultOfPreactivationDone w
            else (resultOfPreactivationDone w)
                   \<lparr> observers := observers (resultOfPreactivationDone w)
                                     @ [length (navigations w)] \<rparr>)"
  by (simp_all add: preActivation_def afterPreactivation_hook_def resolve_def call_def
        subject_subscribe_def Let_def deliver_last split: option.splits)

lemmas fields = appInitializer_fields locationInitialized_fields ngOnDestroy_fields
  bootstrapListener_fields preActivation_fields

subsection \<open>Teardown\<close>

lemma destroyed_step_iff: "destroyed (step env e w) = (destroyed w \<or> e = NgOnDestroy)"
  by (cases e) (simp_all add: fields del: step.simps)

lemma destroyed_step: "destroyed w \<Longrightarrow> destroyed (step env e w)"
  by (simp add: destroyed_step_iff)

lemma destroyed_run: "destroyed w \<Longrightarrow> destroyed (run env es w)"
  by (induction es arbitrary: w) (simp_all add: destroyed_step)

text \<open>
  Claim C8. If \<open>ngOnDestroy\<close> is called before the \<open>LOCATION_INITIALIZED\<close> promise awaited
  by \<open>appInitializer\<close> settles, then for every value of \<open>initialNavigation\<close>, and whatever
  else happens in between, the callback fulfils the promise of the phase and does
  nothing else: the state changes in that promise only, so the trace gains no call (no
  \<open>setUpLocationChangeListener\<close>, no \<open>initialNavigation\<close>, no lookup) and the hook of the
  router is not assigned.
\<close>

theorem C8_destroyed_before_location_initialized:
  assumes "w' = run env es (step env NgOnDestroy w)"
    and "i < length (promises w')" and "promises w' ! i = AwaitingLocation"
  shows "step env (LocationInitialized i) w' = w'\<lparr> promises := (promises w')[i := Fulfilled] \<rparr>
    \<and> promises (step env (LocationInitialized i) w') ! i = Fulfilled
    \<and> trace (step env (LocationInitialized i) w') = trace w'
    \<and> afterPreactivation (step env (LocationInitialized i) w') = afterPreactivation w'"
proof -
  have "destroyed (step env NgOnDestroy w)" by (simp add: ngOnDestroy_def)
  then have d: "destroyed w'" using assms(1) by (simp add: destroyed_run)
  have 1: "step env (LocationInitialized i) w' = w'\<lparr> promises := (promises w')[i := Fulfilled] \<rparr>"
    using d assms(2,3) by (simp add: appInitializer_then_eq)
  show ?thesis unfolding 1 using assms(2) by simp
qed

theorem C8_witness:
  "promises (run blocking_app [AppInitializer, NgOnDestroy, BootstrapListener 8] init) ! 0
     = AwaitingLocation
   \<and> promises (run blocking_app
        [AppInitializer, NgOnDestroy, BootstrapListener 8, LocationInitialized 0] init) ! 0
     = Fulfilled
   \<and> trace (run blocking_app
        [AppInitializer, NgOnDestroy, BootstrapListener 8, LocationInitialized 0] init)
     = trace (run blocking_app [AppInitializer, NgOnDestroy, BootstrapListener 8] init)
   \<and> afterPreactivation (run blocking_app
        [AppInitializer, NgOnDestroy, BootstrapListener 8, LocationInitialized 0] init) = None"
  using C8_destroyed_before_location_initialized
    [of "run blocking_app [BootstrapListener 8]
           (step blocking_app NgOnDestroy (step blocking_app AppInitializer init))"
        blocking_app "[BootstrapListener 8]" "step blocking_app AppInitializer init" 0]
  by (simp add: op_defs app_defs)

subsection \<open>Counting calls in a run\<close>

lemma calls_append: "calls c (xs @ ys) = calls c xs + calls c ys"
  by (simp add: calls_def)

lemma calls_Nil: "calls c [] = 0"
  by (simp add: calls_def)

lemma calls_Cons: "calls c (x # xs) = (if x = c then 1 else 0) + calls c xs"
  by (simp add: calls_def)

lemmas calls_simps = calls_append calls_Nil calls_Cons

lemma calls_run:
  assumes "\<And>e w. calls c (trace (step env e w)) = calls c (trace w) + f e"
  shows "calls c (trace (run env es w)) = calls c (trace w) + sum_list (map f es)"
  by (induction es arbitrary: w) (simp_all add: assms)

lemma sum_list_count: "sum_list (map (\<lambda>e. if e = x then 1 else 0) es) = count_list es x"
  by (induction es) simp_all

lemma before_destroy_Nil: "before_destroy [] = []"
  by (simp add: before_destroy_def)

lemma before_destroy_Cons:
  "before_destroy (e # es) = (if e = NgOnDestroy then [] else e # before_destroy es)"
  by (simp add: before_destroy_def)

lemma before_destroy_replicate:
  "e \<noteq> NgOnDestroy \<Longrightarrow> before_destroy (replicate n e) = replicate n e"
  by (induction n) (simp_all add: before_destroy_Nil before_destroy_Cons)

lemma calls_run_live:
  assumes "\<And>e w. calls c (trace (step env e w))
             = calls c (trace w) + (if destroyed w then 0 else f e)"
    and "f NgOnDestroy = 0"
  shows "calls c (trace (run env es w))
       = calls c (trace w) + (if destroyed w then 0 else sum_list (map f (before_destroy es)))"
proof (induction es arbitrary: w)
  case Nil
  then show ?case by (simp add: before_destroy_Nil)
next
  case (Cons e es)
  show ?case
    using Cons.IH [of "step env e w"] assms(1) [of e w] assms(2)
    by (simp add: destroyed_step_iff before_destroy_Cons del: step.simps)
qed

lemma initialNavigation_step_default:
  assumes "opts_initialNavigation env = Some ''enabledNonBlocking'' \<or> opts_initialNavigation env = None"
    and "components_0 env = Some c0"
  shows "calls RouterInitialNavigation (trace (step env e w))
       = calls RouterInitialNavigation (trace w)
         + (if destroyed w then 0 else if e = BootstrapListener c0 then 1 else 0)"
  using assms
  by (cases e) (auto simp add: trace_simps calls_simps simp del: step.simps split: option.splits)

lemma initialNavigation_run_default:
  assumes "opts_initialNavigation env = Some ''enabledNonBlocking'' \<or> opts_initialNavigation env = None"
    and "components_0 env = Some c0"
  shows "calls RouterInitialNavigation (trace (run env es w))
       = calls RouterInitialNavigation (trace w)
         + (if destroyed w then 0 else count_list (before_destroy es) (BootstrapListener c0))"
  using calls_run_live [of RouterInitialNavigation env
      "\<lambda>e. if e = BootstrapListener c0 then 1 else 0" es w]
    initialNavigation_step_default [OF assms]
  by (simp add: sum_list_count del: step.simps)

lemma initialNavigation_step_other:
  assumes "opts_initialNavigation env \<noteq> Some ''enabledNonBlocking''"
    and "opts_initialNavigation env \<noteq> None"
    and "opts_initialNavigation env \<noteq> Some ''enabledBlocking''"
  shows "calls RouterInitialNavigation (trace (step env e w))
       = calls RouterInitialNavigation (trace w) + 0"
  using assms
  by (cases e) (auto simp add: trace_simps calls_simps simp del: step.simps split: option.splits)

lemma setUpLocationChangeListener_step:
  assumes "opts_initialNavigation env \<noteq> Some ''disabled''"
  shows "calls RouterSetUpLocationChangeListener (trace (step env e w))
       = calls RouterSetUpLocationChangeListener (trace w) + 0"
  using assms
  by (cases e) (auto simp add: trace_simps calls_simps simp del: step.simps split: option.splits)

text \<open>
  Claim C4. With \<open>initialNavigation\<close> \<open>'enabledNonBlocking'\<close> or unset, the callback of
  \<open>appInitializer\<close> fulfils the promise without calling \<open>router.initialNavigation\<close>; and in
  every run, from every state, the number of calls of \<open>router.initialNavigation\<close> grows by
  the number of calls of \<open>bootstrapListener\<close> for the first root component \<open>c0\<close> made
  while the injector is alive: none before the listener runs for the first root, and
  exactly one when it runs for it once.
\<close>

theorem C4_default_navigates_in_listener:
  assumes "opts_initialNavigation env = Some ''enabledNonBlocking''
             \<or> opts_initialNavigation env = None"
    and "components_0 env = Some c0"
    and "i < length (promises w)" and "promises w ! i = AwaitingLocation"
  shows "promises (step env (LocationInitialized i) w) ! i = Fulfilled
    \<and> calls RouterInitialNavigation (trace (step env (LocationInitialized i) w))
        = calls RouterInitialNavigation (trace w)
    \<and> calls RouterInitialNavigation (trace (run env es w'))
        = calls RouterInitialNavigation (trace w')
          + (if destroyed w' then 0
             else count_list (before_destroy es) (BootstrapListener c0))"
proof -
  have a: "promises (step env (LocationInitialized i) w) ! i = Fulfilled"
    using assms by (auto simp add: op_defs)
  have b: "calls RouterInitialNavigation (trace (step env (LocationInitialized i) w))
        = calls RouterInitialNavigation (trace w)"
    using initialNavigation_step_default [OF assms(1,2), of "LocationInitialized i" w]
    by (simp del: step.simps)
  show ?thesis
    using a b initialNavigation_run_default [OF assms(1,2), of es w'] by simp
qed

theorem C4_witness:
  "promises (run default_app [AppInitializer] init) ! 0 = AwaitingLocation
   \<and> promises (run default_app [AppInitializer, LocationInitialized 0] init) ! 0 = Fulfilled
   \<and> calls RouterInitialNavigation
        (trace (run default_app [AppInitializer, LocationInitialized 0] init)) = 0
   \<and> calls RouterInitialNavigation
        (trace (run default_app [BootstrapListener 7, PreActivation, BootstrapListener 8]
           (run default_app [AppInitializer, LocationInitialized 0] init))) = 1"
  using C4_default_navigates_in_listener
    [of default_app 7 0 "step default_app AppInitializer init"
        "[BootstrapListener 7, PreActivation, BootstrapListener 8]"
        "run default_app [AppInitializer, LocationInitialized 0] init"]
  by (simp add: op_defs app_defs calls_simps before_destroy_def)

subsection \<open>The three values of the type, and the others\<close>

lemma lookups_append: "lookups (xs @ ys) = lookups xs @ lookups ys"
  by (simp add: lookups_def)

text \<open>
  Claim C5. With \<open>initialNavigation\<close> \<open>'disabled'\<close> and \<open>destroyed\<close> false, the callback of
  \<open>appInitializer\<close> calls \<open>router.setUpLocationChangeListener\<close> and only then resolves its
  promise, in the same step; and no run, from any state, adds a call of
  \<open>router.initialNavigation\<close>, whichever operations it is made of.
\<close>

theorem C5_disabled_installs_listener:
  assumes "opts_initialNavigation env = Some ''disabled''"
    and "\<not> destroyed w"
    and "i < length (promises w)" and "promises w ! i = AwaitingLocation"
  shows "trace (step env (LocationInitialized i) w)
        = trace w @ [InjectorGet Router, InjectorGet ROUTER_CONFIGURATION,
                     RouterSetUpLocationChangeListener, ResolveTrue i]
    \<and> promises (step env (LocationInitialized i) w) ! i = Fulfilled
    \<and> calls RouterInitialNavigation (trace (run env es w'))
        = calls RouterInitialNavigation (trace w')"
proof -
  have a: "trace (step env (LocationInitialized i) w)
        = trace w @ [InjectorGet Router, InjectorGet ROUTER_CONFIGURATION,
                     RouterSetUpLocationChangeListener, ResolveTrue i]"
    using assms by (simp add: trace_appInitializer_then del: step.simps)
  have b: "promises (step env (LocationInitialized i) w) ! i = Fulfilled"
    using assms by (simp add: op_defs)
  have c: "calls RouterInitialNavigation (trace (run env es w'))
        = calls RouterInitialNavigation (trace w')"
    using calls_run [of RouterInitialNavigation env "\<lambda>e. 0" es w']
      initialNavigation_step_other [of env] assms(1)
    by simp
  from a b c show ?thesis by simp
qed

theorem C5_witness:
  "\<not> destroyed (run disabled_app [AppInitializer] init)
   \<and> promises (run disabled_app [AppInitializer] init) ! 0 = AwaitingLocation
   \<and> trace (run disabled_app [AppInitializer, LocationInitialized 0] init)
      = [InjectorGet LOCATION_INITIALIZED, InjectorGet Router, InjectorGet ROUTER_CONFIGURATION,
         RouterSetUpLocationChangeListener, ResolveTrue 0]
   \<and> promises (run disabled_app [AppInitializer, LocationInitialized 0] init) ! 0 = Fulfilled
   \<and> calls RouterInitialNavigation
        (trace (run disabled_app
           [AppInitializer, LocationInitialized 0, BootstrapListener 7, PreActivation] init)) = 0"
  using C5_disabled_installs_listener
    [of disabled_app "step disabled_app AppInitializer init" 0
        "[AppInitializer, LocationInitialized 0, BootstrapListener 7, PreActivation]" init]
  by (simp add: op_defs app_defs calls_simps)

text \<open>
  Claim C9. For a value of \<open>initialNavigation\<close> outside the three of the type (for example
  the legacy \<open>'enabled'\<close>), the callback of \<open>appInitializer\<close> takes the last \<open>else\<close> and
  resolves the promise at once, and no run, from any state, adds a call of
  \<open>router.initialNavigation\<close> or of \<open>router.setUpLocationChangeListener\<close>.
\<close>

theorem C9_unrecognized_never_navigates:
  assumes "opts_initialNavigation env = Some v" and "v \<notin> InitialNavigation"
    and "\<not> destroyed w"
    and "i < length (promises w)" and "promises w ! i = AwaitingLocation"
  shows "trace (step env (LocationInitialized i) w)
        = trace w @ [InjectorGet Router, InjectorGet ROUTER_CONFIGURATION, ResolveTrue i]
    \<and> promises (step env (LocationInitialized i) w) ! i = Fulfilled
    \<and> calls RouterInitialNavigation (trace (run env es w'))
        = calls RouterInitialNavigation (trace w')
    \<and> calls RouterSetUpLocationChangeListener (trace (run env es w'))
        = calls RouterSetUpLocationChangeListener (trace w')"
proof -
  have v: "opts_initialNavigation env \<noteq> Some ''disabled''"
    "opts_initialNavigation env \<noteq> Some ''enabledBlocking''"
    "opts_initialNavigation env \<noteq> Some ''enabledNonBlocking''"
    "opts_initialNavigation env \<noteq> None"
    using assms(1,2) by (auto simp add: InitialNavigation_def)
  have a: "trace (step env (LocationInitialized i) w)
        = trace w @ [InjectorGet Router, InjectorGet ROUTER_CONFIGURATION, ResolveTrue i]"
    using v assms(3,4,5) by (simp add: trace_appInitializer_then del: step.simps)
  have b: "promises (step env (LocationInitialized i) w) ! i = Fulfilled"
    using v assms(3,4,5) by (simp add: op_defs)
  have c: "calls RouterInitialNavigation (trace (run env es w'))
        = calls RouterInitialNavigation (trace w')"
    using calls_run [of RouterInitialNavigation env "\<lambda>e. 0" es w']
      initialNavigation_step_other [of env] v
    by simp
  have d: "calls RouterSetUpLocationChangeListener (trace (run env es w'))
        = calls RouterSetUpLocationChangeListener (trace w')"
    using calls_run [of RouterSetUpLocationChangeListener env "\<lambda>e. 0" es w']
      setUpLocationChangeListener_step [of env] v
    by simp
  from a b c d show ?thesis by simp
qed

theorem C9_witness:
  "''enabled'' \<notin> InitialNavigation
   \<and> \<not> destroyed (run legacy_app [AppInitializer] init)
   \<and> promises (run legacy_app [AppInitializer] init) ! 0 = AwaitingLocation
   \<and> trace (run legacy_app [AppInitializer, LocationInitialized 0] init)
      = [InjectorGet LOCATION_INITIALIZED, InjectorGet Router, InjectorGet ROUTER_CONFIGURATION,
         ResolveTrue 0]
   \<and> promises (run legacy_app [AppInitializer, LocationInitialized 0] init) ! 0 = Fulfilled
   \<and> calls RouterInitialNavigation
        (trace (run legacy_app
           [AppInitializer, LocationInitialized 0, BootstrapListener 7, PreActivation] init)) = 0
   \<and> calls RouterSetUpLocationChangeListener
        (trace (run legacy_app
           [AppInitializer, LocationInitialized 0, BootstrapListener 7, PreActivation] init)) = 0"
  using C9_unrecognized_never_navigates
    [of legacy_app "''enabled''" "step legacy_app AppInitializer init" 0
        "[AppInitializer, LocationInitialized 0, BootstrapListener 7, PreActivation]" init]
  by (simp add: op_defs app_defs calls_simps InitialNavigation_def)

subsection \<open>Lookups after teardown\<close>

lemma lookups_Nil: "lookups [] = []"
  by (simp add: lookups_def)

lemma lookups_Cons: "lookups (c # cs) = (if is_lookup c then c # lookups cs else lookups cs)"
  by (simp add: lookups_def)

lemmas lookups_simps = lookups_append lookups_Nil lookups_Cons

lemma lookups_step_destroyed:
  assumes "destroyed w" and "e \<noteq> AppInitializer" and "\<And>r. e \<noteq> BootstrapListener r"
  shows "lookups (trace (step env e w)) = lookups (trace w)"
  using assms
  by (cases e) (auto simp add: trace_simps lookups_simps simp del: step.simps split: option.splits)

lemma lookups_run_destroyed:
  assumes "destroyed w" and "AppInitializer \<notin> set es" and "\<And>r. BootstrapListener r \<notin> set es"
  shows "lookups (trace (run env es w)) = lookups (trace w)"
  using assms
proof (induction es arbitrary: w)
  case Nil
  then show ?case by simp
next
  case (Cons e es)
  have e: "e \<noteq> AppInitializer" "\<And>r. e \<noteq> BootstrapListener r"
    using Cons.prems(2,3) by auto
  have "lookups (trace (run env es (step env e w))) = lookups (trace (step env e w))"
    using Cons.prems by (intro Cons.IH) (auto simp add: destroyed_step)
  then show ?case
    using lookups_step_destroyed [OF Cons.prems(1) e, of env] by simp
qed

text \<open>
  Claim C2: once \<open>ngOnDestroy\<close> has set \<open>destroyed\<close>, no later step of the callback of
  \<open>appInitializer\<close> or of \<open>bootstrapListener\<close> performs a lookup. The callback keeps to it
  (\<open>lookups_run_destroyed\<close>: it tests \<open>destroyed\<close> before its lookups). \<open>bootstrapListener\<close>
  does not test \<open>destroyed\<close>: called after \<open>ngOnDestroy\<close> for the first root, it looks up
  \<open>ROUTER_CONFIGURATION\<close> in the destroyed injector, and the lookup throws.
\<close>

theorem C2_listener_looks_up_after_destroy:
  "destroyed (run default_app [AppInitializer, LocationInitialized 0, NgOnDestroy] init)
   \<and> bootstrapListener default_app 7
        (run default_app [AppInitializer, LocationInitialized 0, NgOnDestroy] init)
      = Inl (InjectorDestroyed,
             call (InjectorGet ROUTER_CONFIGURATION)
               (run default_app [AppInitializer, LocationInitialized 0, NgOnDestroy] init))
   \<and> lookups (trace (run default_app [AppInitializer, LocationInitialized 0, NgOnDestroy] init))
      = [InjectorGet LOCATION_INITIALIZED, InjectorGet Router, InjectorGet ROUTER_CONFIGURATION]
   \<and> lookups (trace (run default_app
        [AppInitializer, LocationInitialized 0, NgOnDestroy, BootstrapListener 7] init))
      = [InjectorGet LOCATION_INITIALIZED, InjectorGet Router, InjectorGet ROUTER_CONFIGURATION,
         InjectorGet ROUTER_CONFIGURATION]"
  by (simp add: op_defs app_defs lookups_simps)

subsection \<open>Values outside the type\<close>

text \<open>
  Claim C1 says that a value of \<open>initialNavigation\<close> outside the three of the type makes
  the pre-bootstrap phase fail with a configuration error. It does not: with the legacy
  value \<open>'enabled'\<close> the promise of the phase is fulfilled.
\<close>

theorem C1_counterexample:
  "''enabled'' \<notin> InitialNavigation
   \<and> opts_initialNavigation legacy_app = Some ''enabled''
   \<and> promises (run legacy_app [AppInitializer, LocationInitialized 0] init) = [Fulfilled]"
  by (simp add: op_defs app_defs InitialNavigation_def)

text \<open>
  Claim C1, amended. For a value outside the three of the type, the callback of
  \<open>appInitializer\<close> does what it does for \<open>'enabledNonBlocking'\<close> and fulfils the promise of
  the phase; and every operation treats an unset \<open>initialNavigation\<close> as it treats
  \<open>'enabledNonBlocking'\<close>.
\<close>

theorem C1_unrecognized_resolves_as_default:
  assumes "v \<notin> InitialNavigation"
    and "i < length (promises w)" and "promises w ! i = AwaitingLocation"
  shows "step (env\<lparr> opts_initialNavigation := Some v \<rparr>) (LocationInitialized i) w
        = step (env\<lparr> opts_initialNavigation := Some ''enabledNonBlocking'' \<rparr>)
            (LocationInitialized i) w
    \<and> promises (step (env\<lparr> opts_initialNavigation := Some v \<rparr>) (LocationInitialized i) w) ! i
        = Fulfilled
    \<and> step (env\<lparr> opts_initialNavigation := None \<rparr>) e w'
        = step (env\<lparr> opts_initialNavigation := Some ''enabledNonBlocking'' \<rparr>) e w'"
proof -
  have v: "v \<noteq> ''disabled''" "v \<noteq> ''enabledBlocking''"
    using assms(1) by (auto simp add: InitialNavigation_def)
  have a: "step (env\<lparr> opts_initialNavigation := Some v \<rparr>) (LocationInitialized i) w
        = step (env\<lparr> opts_initialNavigation := Some ''enabledNonBlocking'' \<rparr>)
            (LocationInitialized i) w"
    using v by (simp add: appInitializer_then_eq)
  have b: "promises (step (env\<lparr> opts_initialNavigation := Some v \<rparr>) (LocationInitialized i) w) ! i
        = Fulfilled"
    using v assms(2,3) by (simp add: op_defs)
  have c: "step (env\<lparr> opts_initialNavigation := None \<rparr>) e w'
        = step (env\<lparr> opts_initialNavigation := Some ''enabledNonBlocking'' \<rparr>) e w'"
    by (cases e)
       (simp_all add: appInitializer_then_eq bootstrapListener_eq components_0_def Let_def)
  from a b c show ?thesis by simp
qed

theorem C1_witness:
  "''enabled'' \<notin> InitialNavigation
   \<and> promises (step legacy_app AppInitializer init) ! 0 = AwaitingLocation
   \<and> step legacy_app (LocationInitialized 0) (step legacy_app AppInitializer init)
      = step (legacy_app\<lparr> opts_initialNavigation := Some ''enabledNonBlocking'' \<rparr>)
          (LocationInitialized 0) (step legacy_app AppInitializer init)
   \<and> promises (step legacy_app (LocationInitialized 0) (step legacy_app AppInitializer init)) ! 0
      = Fulfilled
   \<and> step default_app (BootstrapListener 7) init
      = step (default_app\<lparr> opts_initialNavigation := Some ''enabledNonBlocking'' \<rparr>)
          (BootstrapListener 7) init"
  using C1_unrecognized_resolves_as_default
    [of "''enabled''" 0 "step legacy_app AppInitializer init" legacy_app
        "BootstrapListener 7" init]
  by (simp add: op_defs app_defs InitialNavigation_def)

subsection \<open>The first-root test of the listener\<close>

lemma calls_step_listener:
  assumes "components_0 env = Some c0"
    and "c = PreloaderSetUpPreloading \<or> c = RouterScrollerInit
         \<or> c = RouterResetRootComponentType \<or> c = SubjectNext \<or> c = SubjectComplete"
  shows "calls c (trace (step env e w))
       = calls c (trace w)
         + (if destroyed w then 0 else if e = BootstrapListener c0 then 1 else 0)"
  using assms
  by (cases e) (auto simp add: trace_simps calls_simps simp del: step.simps split: option.splits)

lemma calls_run_listener:
  assumes "components_0 env = Some c0"
    and "c = PreloaderSetUpPreloading \<or> c = RouterScrollerInit
         \<or> c = RouterResetRootComponentType \<or> c = SubjectNext \<or> c = SubjectComplete"
  shows "calls c (trace (run env es w))
       = calls c (trace w)
         + (if destroyed w then 0 else count_list (before_destroy es) (BootstrapListener c0))"
  using calls_run_live [of c env "\<lambda>e. if e = BootstrapListener c0 then 1 else 0" es w]
    calls_step_listener [OF assms]
  by (simp add: sum_list_count del: step.simps)

lemma bootstrapListener_other_root:
  assumes "Some r \<noteq> components_0 env"
  shows "bootstrapListener env r w
       = (if destroyed w
          then Inl (InjectorDestroyed,
                    w\<lparr> trace := trace w @ [InjectorGet ROUTER_CONFIGURATION] \<rparr>)
          else Inr (w\<lparr> trace := trace w @
            [InjectorGet ROUTER_CONFIGURATION, InjectorGet RouterPreloader,
             InjectorGet RouterScroller, InjectorGet Router, InjectorGet ApplicationRef] \<rparr>))"
  using assms by (simp add: op_defs)

text \<open>
  Claim C10. The test of \<open>bootstrapListener\<close> compares its argument with
  \<open>ref.components[0]\<close> and keeps no record of an earlier call: called for the first root
  \<open>c0\<close> in any state of a live injector, it appends the same calls; so \<open>n\<close> calls for \<open>c0\<close>
  add \<open>n\<close> calls of \<open>setUpPreloading\<close> and of the scroller's \<open>init\<close>, and with
  \<open>initialNavigation\<close> \<open>'enabledNonBlocking'\<close> or unset \<open>n\<close> calls of
  \<open>router.initialNavigation\<close>. A call for another root only performs the five lookups. (In a
  destroyed injector every call stops at its first lookup, which throws.)
\<close>

theorem C10_first_root_guard_is_no_flag:
  assumes "components_0 env = Some c0"
  shows "trace (step env (BootstrapListener c0) w)
        = trace w @
          (if destroyed w then [InjectorGet ROUTER_CONFIGURATION]
           else
             [InjectorGet ROUTER_CONFIGURATION, InjectorGet RouterPreloader,
              InjectorGet RouterScroller, InjectorGet Router, InjectorGet ApplicationRef] @
             (if opts_initialNavigation env = Some ''enabledNonBlocking''
                 \<or> opts_initialNavigation env = None
              then [RouterInitialNavigation] else []) @
             [PreloaderSetUpPreloading, RouterScrollerInit, RouterResetRootComponentType,
              SubjectNext, SubjectComplete])
    \<and> calls PreloaderSetUpPreloading (trace (run env (replicate n (BootstrapListener c0)) w))
        = calls PreloaderSetUpPreloading (trace w) + (if destroyed w then 0 else n)
    \<and> calls RouterScrollerInit (trace (run env (replicate n (BootstrapListener c0)) w))
        = calls RouterScrollerInit (trace w) + (if destroyed w then 0 else n)
    \<and> (opts_initialNavigation env = Some ''enabledNonBlocking''
          \<or> opts_initialNavigation env = None \<longrightarrow>
        calls RouterInitialNavigation (trace (run env (replicate n (BootstrapListener c0)) w))
        = calls RouterInitialNavigation (trace w) + (if destroyed w then 0 else n))
    \<and> (r \<noteq> c0 \<longrightarrow>
        bootstrapListener env r w
        = (if destroyed w
           then Inl (InjectorDestroyed,
                     w\<lparr> trace := trace w @ [InjectorGet ROUTER_CONFIGURATION] \<rparr>)
           else Inr (w\<lparr> trace := trace w @
             [InjectorGet ROUTER_CONFIGURATION, InjectorGet RouterPreloader,
              InjectorGet RouterScroller, InjectorGet Router, InjectorGet ApplicationRef] \<rparr>)))"
proof -
  have "count_list (replicate n (BootstrapListener c0)) (BootstrapListener c0) = n"
    by (induction n) simp_all
  then have n: "count_list (before_destroy (replicate n (BootstrapListener c0)))
      (BootstrapListener c0) = n"
    by (simp add: before_destroy_replicate)
  have a: "trace (step env (BootstrapListener c0) w)
        = trace w @
          (if destroyed w then [InjectorGet ROUTER_CONFIGURATION]
           else
             [InjectorGet ROUTER_CONFIGURATION, InjectorGet RouterPreloader,
              InjectorGet RouterScroller, InjectorGet Router, InjectorGet ApplicationRef] @
             (if opts_initialNavigation env = Some ''enabledNonBlocking''
                 \<or> opts_initialNavigation env = None
              then [RouterInitialNavigation] else []) @
             [PreloaderSetUpPreloading, RouterScrollerInit, RouterResetRootComponentType,
              SubjectNext, SubjectComplete])"
    using assms by (simp add: trace_bootstrapListener del: step.simps)
  have b: "calls PreloaderSetUpPreloading (trace (run env (replicate n (BootstrapListener c0)) w))
        = calls PreloaderSetUpPreloading (trace w) + (if destroyed w then 0 else n)"
    using calls_run_listener [OF assms, of PreloaderSetUpPreloading] by (simp add: n)
  have c: "calls RouterScrollerInit (trace (run env (replicate n (BootstrapListener c0)) w))
        = calls RouterScrollerInit (trace w) + (if destroyed w then 0 else n)"
    using calls_run_listener [OF assms, of RouterScrollerInit] by (simp add: n)
  have d: "calls RouterInitialNavigation (trace (run env (replicate n (BootstrapListener c0)) w))
        = calls RouterInitialNavigation (trace w) + (if destroyed w then 0 else n)"
    if "opts_initialNavigation env = Some ''enabledNonBlocking''
          \<or> opts_initialNavigation env = None"
    using initialNavigation_run_default [OF that assms] by (simp add: n)
  have e: "bootstrapListener env r w
        = (if destroyed w
           then Inl (InjectorDestroyed,
                     w\<lparr> trace := trace w @ [InjectorGet ROUTER_CONFIGURATION] \<rparr>)
           else Inr (w\<lparr> trace := trace w @
             [InjectorGet ROUTER_CONFIGURATION, InjectorGet RouterPreloader,
              InjectorGet RouterScroller, InjectorGet Router, InjectorGet ApplicationRef] \<rparr>))"
    if "r \<noteq> c0"
    using that assms by (simp add: bootstrapListener_other_root)
  from a b c d e show ?thesis by blast
qed

theorem C10_witness:
  "components_0 default_app = Some 7
   \<and> trace (run default_app [BootstrapListener 7, BootstrapListener 7] init)
      = trace (run default_app [BootstrapListener 7] init) @
        [InjectorGet ROUTER_CONFIGURATION, InjectorGet RouterPreloader,
         InjectorGet RouterScroller, InjectorGet Router, InjectorGet ApplicationRef,
         RouterInitialNavigation, PreloaderSetUpPreloading, RouterScrollerInit,
         RouterResetRootComponentType, SubjectNext, SubjectComplete]
   \<and> calls RouterInitialNavigation
        (trace (run default_app [BootstrapListener 7, BootstrapListener 7] init)) = 2
   \<and> calls PreloaderSetUpPreloading
        (trace (run default_app [BootstrapListener 7, BootstrapListener 7] init)) = 2
   \<and> calls RouterScrollerInit
        (trace (run default_app [BootstrapListener 7, BootstrapListener 7] init)) = 2
   \<and> navigations (step default_app (BootstrapListener 8) init) = navigations init
   \<and> resultOfPreactivationDone (step default_app (BootstrapListener 8) init)
      = resultOfPreactivationDone init"
proof -
  have c: "components_0 default_app = Some 7"
    by (simp add: app_defs)
  have o: "opts_initialNavigation default_app = None"
    by (simp add: app_defs)
  have r: "replicate 2 (BootstrapListener 7) = [BootstrapListener 7, BootstrapListener 7]"
    by (simp add: numeral_2_eq_2)
  have t: "trace init = []" "\<not> destroyed init"
    by (simp_all add: init_def)
  have d: "\<not> destroyed (step default_app (BootstrapListener 7) init)"
    using t(2) by (simp add: destroyed_step_iff del: step.simps)
  note f = C10_first_root_guard_is_no_flag [OF c, of _ 2 8, unfolded r]
  have s: "step default_app (BootstrapListener 8) init
      = state_of (bootstrapListener default_app 8 init)"
    by simp
  show ?thesis
    unfolding s run.simps
    using f [of init] f [of "step default_app (BootstrapListener 7) init"]
    by (simp add: c o t d calls_simps state_of_def del: step.simps)
qed

subsection \<open>The completion signal\<close>













subsection \<open>The closure pauses the first navigation only\<close>

lemma hook_installed_step:
  "afterPreactivation w \<noteq> None \<Longrightarrow> afterPreactivation (step env e w) \<noteq> None"
  by (cases e) (auto simp add: fields simp del: step.simps)

lemma map_fst_step_other:
  assumes "e \<noteq> PreActivation"
  shows "map fst (navigations (step env e w)) = map fst (navigations w)
    \<and> initNavigation (step env e w) = initNavigation w"
  using assms by (cases e) (auto simp add: fields map_fst_deliver simp del: step.simps)

lemma map_fst_preActivation:
  assumes "afterPreactivation w \<noteq> None"
  shows "map fst (navigations (step env PreActivation w))
       = map fst (navigations w) @ [if initNavigation w then OfNull else ResultOfPreactivationDone]
    \<and> initNavigation (step env PreActivation w)"
  using assms by (auto simp add: fields simp del: step.simps)

lemma map_fst_run:
  assumes "afterPreactivation w \<noteq> None"
  shows "map fst (navigations (run env es w))
       = map fst (navigations w) @
         (if initNavigation w then replicate (count_list es PreActivation) OfNull
          else case count_list es PreActivation of
                 0 \<Rightarrow> []
               | Suc k \<Rightarrow> ResultOfPreactivationDone # replicate k OfNull)"
  using assms
proof (induction es arbitrary: w)
  case Nil
  then show ?case by simp
next
  case (Cons e es)
  have h: "afterPreactivation (step env e w) \<noteq> None"
    using Cons.prems by (rule hook_installed_step)
  note ih = Cons.IH [OF h]
  show ?case
  proof (cases "e = PreActivation")
    case True
    then show ?thesis
      using ih map_fst_preActivation [OF Cons.prems, of env]
      by (simp add: replicate_app_Cons_same del: step.simps)
  next
    case False
    then show ?thesis
      using ih map_fst_step_other [OF False, of env w] by (simp del: step.simps)
  qed
qed

lemma later_not_paused_step:
  assumes "n1 \<le> length (navigations w) \<longrightarrow> initNavigation w"
    and "\<forall>k. n1 \<le> k \<and> k < length (navigations w) \<longrightarrow> Next \<in> set (snd (navigations w ! k))"
  shows "(n1 \<le> length (navigations (step env e w)) \<longrightarrow> initNavigation (step env e w))
    \<and> (\<forall>k. n1 \<le> k \<and> k < length (navigations (step env e w))
          \<longrightarrow> Next \<in> set (snd (navigations (step env e w) ! k)))"
proof (cases e)
  case AppInitializer
  then show ?thesis using assms by (simp add: fields del: step.simps)
next
  case (LocationInitialized j)
  then show ?thesis using assms by (simp add: fields del: step.simps)
next
  case PreActivation
  show ?thesis
  proof (cases "afterPreactivation w")
    case None
    then show ?thesis using assms PreActivation by (simp add: fields del: step.simps)
  next
    case (Some j)
    show ?thesis
    proof (cases "initNavigation w")
      case True
      then show ?thesis
        using assms PreActivation Some by (auto simp add: fields nth_append simp del: step.simps)
    next
      case False
      then have "length (navigations w) < n1"
        using assms(1) by auto
      then show ?thesis
        using False PreActivation Some by (auto simp add: fields simp del: step.simps)
    qed
  qed
next
  case (BootstrapListener r)
  then show ?thesis
    using assms by (auto simp add: fields length_deliver nth_deliver simp del: step.simps)
next
  case NgOnDestroy
  then show ?thesis using assms by (simp add: fields del: step.simps)
qed

lemma later_not_paused_run:
  assumes "n1 \<le> length (navigations w) \<longrightarrow> initNavigation w"
    and "\<forall>k. n1 \<le> k \<and> k < length (navigations w) \<longrightarrow> Next \<in> set (snd (navigations w ! k))"
  shows "\<forall>k. n1 \<le> k \<and> k < length (navigations (run env es w))
          \<longrightarrow> Next \<in> set (snd (navigations (run env es w) ! k))"
  using assms
proof (induction es arbitrary: w)
  case Nil
  then show ?case by simp
next
  case (Cons e es)
  note s = later_not_paused_step [OF Cons.prems, of env e]
  show ?case
    using Cons.IH [of "step env e w"] s by (simp del: step.simps)
qed

text \<open>
  Claim C6. With \<open>initialNavigation\<close> \<open>'enabledBlocking'\<close>, once the callback of
  \<open>appInitializer\<close> has assigned the closure: whenever \<open>initNavigation\<close> is set, the closure
  returns \<open>of(null)\<close> and changes nothing; and in every run that follows, whatever its
  events, the first call of the closure returns \<open>resultOfPreactivationDone\<close> and every
  later call returns \<open>of(null)\<close>, so that no later navigation is paused.
\<close>

theorem C6_handler_pauses_once:
  assumes "opts_initialNavigation env = Some ''enabledBlocking''"
    and "\<not> destroyed w"
    and "i < length (promises w)" and "promises w ! i = AwaitingLocation"
    and "\<not> initNavigation w"
  shows "afterPreactivation (step env (LocationInitialized i) w) = Some i
    \<and> (initNavigation w' \<longrightarrow> afterPreactivation_hook j w' = (OfNull, w'))
    \<and> map fst (navigations (run env es (step env (LocationInitialized i) w)))
        = map fst (navigations w) @
          (case count_list es PreActivation of
             0 \<Rightarrow> []
           | Suc k \<Rightarrow> ResultOfPreactivationDone # replicate k OfNull)
    \<and> (\<forall>k. Suc (length (navigations w)) \<le> k
            \<and> k < length (navigations (run env es (step env (LocationInitialized i) w)))
          \<longrightarrow> \<not> paused (navigations (run env es (step env (LocationInitialized i) w)) ! k))"
proof -
  define w1 where "w1 = step env (LocationInitialized i) w"
  have w1: "afterPreactivation w1 = Some i" "\<not> initNavigation w1"
    "navigations w1 = navigations w"
    using assms by (simp_all add: w1_def fields del: step.simps)
  have a: "initNavigation w' \<longrightarrow> afterPreactivation_hook j w' = (OfNull, w')"
    by (simp add: afterPreactivation_hook_def)
  have b: "map fst (navigations (run env es w1))
        = map fst (navigations w) @
          (case count_list es PreActivation of
             0 \<Rightarrow> []
           | Suc k \<Rightarrow> ResultOfPreactivationDone # replicate k OfNull)"
    using map_fst_run [of w1 env es] w1 by simp
  have c: "\<forall>k. Suc (length (navigations w)) \<le> k \<and> k < length (navigations (run env es w1))
          \<longrightarrow> Next \<in> set (snd (navigations (run env es w1) ! k))"
    by (rule later_not_paused_run) (auto simp add: w1)
  show ?thesis
    using w1(1) a b c unfolding w1_def paused_def by blast
qed

theorem C6_witness:
  "\<not> destroyed (step blocking_app AppInitializer init)
   \<and> promises (step blocking_app AppInitializer init) ! 0 = AwaitingLocation
   \<and> \<not> initNavigation (step blocking_app AppInitializer init)
   \<and> map fst (navigations (run blocking_app
        [AppInitializer, LocationInitialized 0, PreActivation, PreActivation,
         BootstrapListener 7, PreActivation] init))
      = [ResultOfPreactivationDone, OfNull, OfNull]
   \<and> \<not> paused (navigations (run blocking_app
        [AppInitializer, LocationInitialized 0, PreActivation, PreActivation,
         BootstrapListener 7, PreActivation] init) ! 1)
   \<and> \<not> paused (navigations (run blocking_app
        [AppInitializer, LocationInitialized 0, PreActivation, PreActivation,
         BootstrapListener 7, PreActivation] init) ! 2)"
proof -
  define w where "w = step blocking_app AppInitializer init"
  define es where "es = [PreActivation, PreActivation, BootstrapListener 7, PreActivation]"
  have w: "\<not> destroyed w" "length (promises w) = 1" "promises w ! 0 = AwaitingLocation"
    "\<not> initNavigation w" "navigations w = []"
    by (simp_all add: w_def init_def fields del: step.simps)
  have o: "opts_initialNavigation blocking_app = Some ''enabledBlocking''"
    by (simp add: app_defs)
  have r: "run blocking_app
        [AppInitializer, LocationInitialized 0, PreActivation, PreActivation,
         BootstrapListener 7, PreActivation] init
      = run blocking_app es (step blocking_app (LocationInitialized 0) w)"
    by (simp add: w_def es_def)
  have c: "count_list es PreActivation = 3"
    by (simp add: es_def)
  have f: "map fst (navigations (run blocking_app es (step blocking_app (LocationInitialized 0) w)))
      = [ResultOfPreactivationDone, OfNull, OfNull]"
    using C6_handler_pauses_once [where env = blocking_app and w = w and i = 0 and es = es] o w
    by (simp add: c numeral_3_eq_3 del: run.simps step.simps)
  then have "length (map fst (navigations
      (run blocking_app es (step blocking_app (LocationInitialized 0) w)))) = 3"
    by simp
  then have l: "length (navigations
      (run blocking_app es (step blocking_app (LocationInitialized 0) w))) = 3"
    by (simp del: run.simps step.simps)
  show ?thesis
    unfolding r w_def [symmetric]
    using C6_handler_pauses_once [where env = blocking_app and w = w and i = 0 and es = es]
      o w l f
    by (simp del: run.simps step.simps)
qed

subsection \<open>The blocking policy\<close>

lemma pending_step:
  assumes "i < length (promises w)" and "promises w ! i = Pending" and "e \<noteq> PreActivation"
  shows "i < length (promises (step env e w)) \<and> promises (step env e w) ! i = Pending"
proof (cases e)
  case (LocationInitialized j)
  have "j \<noteq> i" if "promises w ! j = AwaitingLocation"
    using that assms(2) by auto
  then show ?thesis
    using assms LocationInitialized by (simp add: fields del: step.simps)
qed (use assms in \<open>simp_all add: fields nth_append del: step.simps\<close>)

lemma pending_run:
  assumes "i < length (promises w)" and "promises w ! i = Pending"
    and "PreActivation \<notin> set es"
  shows "i < length (promises (run env es w)) \<and> promises (run env es w) ! i = Pending"
  using assms
proof (induction es arbitrary: w)
  case Nil
  then show ?case by simp
next
  case (Cons e es)
  have "e \<noteq> PreActivation" using Cons.prems(3) by auto
  note s = pending_step [OF Cons.prems(1,2) this, of env]
  show ?case
    using Cons.IH [of "step env e w"] s Cons.prems(3) by (simp del: step.simps)
qed

lemma hook_step:
  assumes "afterPreactivation w = Some i" and "\<not> initNavigation w"
    and "\<not> isStopped (resultOfPreactivationDone w)" and "i < length (promises w)"
    and "components_0 env = Some c0"
    and "e \<noteq> PreActivation" and "\<And>j. e \<noteq> LocationInitialized j"
    and "e \<noteq> BootstrapListener c0"
  shows "afterPreactivation (step env e w) = Some i \<and> \<not> initNavigation (step env e w)
    \<and> \<not> isStopped (resultOfPreactivationDone (step env e w))
    \<and> i < length (promises (step env e w))
    \<and> navigations (step env e w) = navigations w"
  using assms by (cases e) (auto simp add: fields simp del: step.simps)

lemma hook_run:
  assumes "afterPreactivation w = Some i" and "\<not> initNavigation w"
    and "\<not> isStopped (resultOfPreactivationDone w)" and "i < length (promises w)"
    and "components_0 env = Some c0"
    and "PreActivation \<notin> set es" and "\<And>j. LocationInitialized j \<notin> set es"
    and "BootstrapListener c0 \<notin> set es"
  shows "afterPreactivation (run env es w) = Some i \<and> \<not> initNavigation (run env es w)
    \<and> \<not> isStopped (resultOfPreactivationDone (run env es w))
    \<and> i < length (promises (run env es w))
    \<and> navigations (run env es w) = navigations w"
  using assms
proof (induction es arbitrary: w)
  case Nil
  then show ?case by simp
next
  case (Cons e es)
  have e: "e \<noteq> PreActivation" "\<And>j. e \<noteq> LocationInitialized j" "e \<noteq> BootstrapListener c0"
    using Cons.prems(6,7,8) by auto
  note s = hook_step [OF Cons.prems(1,2,3,4,5) e]
  have "afterPreactivation (run env es (step env e w)) = Some i
    \<and> \<not> initNavigation (run env es (step env e w))
    \<and> \<not> isStopped (resultOfPreactivationDone (run env es (step env e w)))
    \<and> i < length (promises (run env es (step env e w)))
    \<and> navigations (run env es (step env e w)) = navigations (step env e w)"
    using s Cons.prems(5,6,7,8) by (intro Cons.IH) auto
  then show ?case using s by (simp del: step.simps)
qed

lemma preActivation_first:
  assumes "afterPreactivation w = Some i" and "\<not> initNavigation w"
    and "\<not> isStopped (resultOfPreactivationDone w)" and "i < length (promises w)"
  shows "promises (step env PreActivation w) ! i = Fulfilled
    \<and> navigations (step env PreActivation w)
        = navigations w @ [(ResultOfPreactivationDone, [])]
    \<and> length (navigations w)
        \<in> set (observers (resultOfPreactivationDone (step env PreActivation w)))
    \<and> \<not> isStopped (resultOfPreactivationDone (step env PreActivation w))"
  using assms by (simp add: fields del: step.simps)

lemma subscribed_step:
  assumes "n < length (navigations w)"
    and "navigations w ! n = (ResultOfPreactivationDone, [])"
    and "n \<in> set (observers (resultOfPreactivationDone w))"
    and "\<not> isStopped (resultOfPreactivationDone w)"
    and "components_0 env = Some c0" and "e \<noteq> BootstrapListener c0"
  shows "n < length (navigations (step env e w))
    \<and> navigations (step env e w) ! n = (ResultOfPreactivationDone, [])
    \<and> n \<in> set (observers (resultOfPreactivationDone (step env e w)))
    \<and> \<not> isStopped (resultOfPreactivationDone (step env e w))"
proof (cases e)
  case PreActivation
  then show ?thesis
    using assms
    by (cases "afterPreactivation w") (simp_all add: fields nth_append del: step.simps)
next
  case (BootstrapListener r)
  then have "Some r \<noteq> components_0 env"
    using assms(5,6) by auto
  then show ?thesis
    using assms BootstrapListener by (simp add: fields del: step.simps)
qed (use assms in \<open>simp_all add: fields del: step.simps\<close>)

lemma subscribed_run:
  assumes "n < length (navigations w)"
    and "navigations w ! n = (ResultOfPreactivationDone, [])"
    and "n \<in> set (observers (resultOfPreactivationDone w))"
    and "\<not> isStopped (resultOfPreactivationDone w)"
    and "components_0 env = Some c0" and "BootstrapListener c0 \<notin> set es"
  shows "n < length (navigations (run env es w))
    \<and> navigations (run env es w) ! n = (ResultOfPreactivationDone, [])
    \<and> n \<in> set (observers (resultOfPreactivationDone (run env es w)))
    \<and> \<not> isStopped (resultOfPreactivationDone (run env es w))"
  using assms
proof (induction es arbitrary: w)
  case Nil
  then show ?case by simp
next
  case (Cons e es)
  have e: "e \<noteq> BootstrapListener c0" using Cons.prems(6) by auto
  note s = subscribed_step [OF Cons.prems(1,2,3,4,5) e]
  show ?case
    using Cons.IH [of "step env e w"] s Cons.prems(5,6) by (simp del: step.simps)
qed

lemma subscribed_fire:
  assumes "n < length (navigations w)"
    and "navigations w ! n = (ResultOfPreactivationDone, [])"
    and "n \<in> set (observers (resultOfPreactivationDone w))"
    and "\<not> isStopped (resultOfPreactivationDone w)"
    and "components_0 env = Some c0"
  shows "navigations (step env (BootstrapListener c0) w) ! n
       = (ResultOfPreactivationDone, if destroyed w then [] else [Next, Complete])"
  using assms by (simp add: fields nth_deliver length_deliver del: step.simps)

text \<open>
  Claim C3. With \<open>initialNavigation\<close> \<open>'enabledBlocking'\<close> and \<open>destroyed\<close> false, let the
  callback of the \<open>i\<close>-th call of \<open>appInitializer\<close> run in a state where the closure has
  not fired and the subject is open. Then the promise of that call stays pending through
  every run in which no navigation reaches pre-activation (\<open>es0\<close>). When the first
  navigation reaches pre-activation (after a run \<open>es1\<close> in which the application has not
  bootstrapped its first root \<open>c0\<close> and no other callback has replaced the closure), the
  promise is fulfilled and the closure returns \<open>resultOfPreactivationDone\<close>, of which the
  navigation has received nothing. It stays so through every run \<open>es2\<close> without a call of
  \<open>bootstrapListener\<close> for \<open>c0\<close>, and that call delivers \<open>Next\<close> and \<open>Complete\<close> to it
  (unless the injector has been destroyed by then: the listener then throws at its first
  lookup and fires nothing).
\<close>

theorem C3_blocking_pauses_until_bootstrap:
  assumes "opts_initialNavigation env = Some ''enabledBlocking''"
    and "components_0 env = Some c0"
    and "\<not> destroyed w" and "\<not> initNavigation w"
    and "\<not> isStopped (resultOfPreactivationDone w)"
    and "i < length (promises w)" and "promises w ! i = AwaitingLocation"
    and "PreActivation \<notin> set es0"
    and "PreActivation \<notin> set es1" and "\<And>j. LocationInitialized j \<notin> set es1"
    and "BootstrapListener c0 \<notin> set es1"
    and "BootstrapListener c0 \<notin> set es2"
    and "w2 = run env es1 (step env (LocationInitialized i) w)"
    and "w4 = run env es2 (step env PreActivation w2)"
  shows "promises (run env es0 (step env (LocationInitialized i) w)) ! i = Pending
    \<and> promises (step env PreActivation w2) ! i = Fulfilled
    \<and> navigations (step env PreActivation w2)
        = navigations w @ [(ResultOfPreactivationDone, [])]
    \<and> navigations w4 ! length (navigations w) = (ResultOfPreactivationDone, [])
    \<and> paused (navigations w4 ! length (navigations w))
    \<and> navigations (step env (BootstrapListener c0) w4) ! length (navigations w)
        = (ResultOfPreactivationDone, if destroyed w4 then [] else [Next, Complete])
    \<and> paused (navigations (step env (BootstrapListener c0) w4) ! length (navigations w))
        = destroyed w4"
proof -
  define w1 where "w1 = step env (LocationInitialized i) w"
  define w3 where "w3 = step env PreActivation w2"
  define n where "n = length (navigations w)"
  have w1: "afterPreactivation w1 = Some i" "\<not> initNavigation w1"
    "\<not> isStopped (resultOfPreactivationDone w1)" "i < length (promises w1)"
    "promises w1 ! i = Pending" "navigations w1 = navigations w"
    using assms(1,3,4,5,6,7) by (simp_all add: w1_def fields del: step.simps)
  have a: "promises (run env es0 w1) ! i = Pending"
    using pending_run [OF w1(4,5) assms(8)] by simp
  have w2: "afterPreactivation w2 = Some i" "\<not> initNavigation w2"
    "\<not> isStopped (resultOfPreactivationDone w2)" "i < length (promises w2)"
    "navigations w2 = navigations w"
    using hook_run [OF w1(1,2,3,4) assms(2,9,10,11)] assms(13) w1(6)
    by (simp_all add: w1_def del: step.simps)
  note p = preActivation_first [OF w2(1,2,3,4), of env]
  have w3: "promises w3 ! i = Fulfilled"
    "navigations w3 = navigations w @ [(ResultOfPreactivationDone, [])]"
    "n \<in> set (observers (resultOfPreactivationDone w3))"
    "\<not> isStopped (resultOfPreactivationDone w3)"
    using p w2(5) by (simp_all add: w3_def n_def del: step.simps)
  have k3: "n < length (navigations w3)" "navigations w3 ! n = (ResultOfPreactivationDone, [])"
    by (simp_all add: w3(2) n_def)
  have w4: "w4 = run env es2 w3"
    using assms(14) by (simp add: w3_def)
  note k4 = subscribed_run [OF k3 w3(3,4) assms(2,12), folded w4]
  have f: "navigations (step env (BootstrapListener c0) w4) ! n
       = (ResultOfPreactivationDone, if destroyed w4 then [] else [Next, Complete])"
    using subscribed_fire [of n w4 env c0] k4 assms(2) by (simp del: step.simps)
  show ?thesis
    using a w3(1,2) k4 f unfolding w1_def w3_def n_def paused_def
    by (simp del: step.simps)
qed

theorem C3_witness:
  "promises (run blocking_app [AppInitializer] init) ! 0 = AwaitingLocation
   \<and> promises (run blocking_app
        [AppInitializer, LocationInitialized 0, NgOnDestroy, BootstrapListener 8] init) ! 0
      = Pending
   \<and> promises (run blocking_app
        [AppInitializer, LocationInitialized 0, BootstrapListener 8, PreActivation] init) ! 0
      = Fulfilled
   \<and> paused (navigations (run blocking_app
        [AppInitializer, LocationInitialized 0, BootstrapListener 8, PreActivation,
         PreActivation, BootstrapListener 8] init) ! 0)
   \<and> navigations (run blocking_app
        [AppInitializer, LocationInitialized 0, BootstrapListener 8, PreActivation,
         PreActivation, BootstrapListener 8, BootstrapListener 7] init) ! 0
      = (ResultOfPreactivationDone, [Next, Complete])"
proof -
  define w where "w = step blocking_app AppInitializer init"
  define w2 where "w2 = run blocking_app [BootstrapListener 8]
    (step blocking_app (LocationInitialized 0) w)"
  define w4 where "w4 = run blocking_app [PreActivation, BootstrapListener 8]
    (step blocking_app PreActivation w2)"
  have o: "opts_initialNavigation blocking_app = Some ''enabledBlocking''"
    and c: "components_0 blocking_app = Some 7"
    by (simp_all add: app_defs)
  have w: "\<not> destroyed w" "\<not> initNavigation w" "\<not> isStopped (resultOfPreactivationDone w)"
    "0 < length (promises w)" "promises w ! 0 = AwaitingLocation" "navigations w = []"
    by (simp_all add: w_def init_def fields del: step.simps)
  have d: "\<not> destroyed w4"
    using w(1) by (simp add: w4_def w2_def destroyed_step_iff del: step.simps)
  note t = C3_blocking_pauses_until_bootstrap
    [of blocking_app 7 w 0 "[NgOnDestroy, BootstrapListener 8]" "[BootstrapListener 8]"
        "[PreActivation, BootstrapListener 8]" w2 w4, OF o c w(1,2,3,4,5)]
  have r: "run blocking_app [AppInitializer] init = w"
    "run blocking_app
        [AppInitializer, LocationInitialized 0, NgOnDestroy, BootstrapListener 8] init
     = run blocking_app [NgOnDestroy, BootstrapListener 8]
         (step blocking_app (LocationInitialized 0) w)"
    "run blocking_app
        [AppInitializer, LocationInitialized 0, BootstrapListener 8, PreActivation] init
     = step blocking_app PreActivation w2"
    "run blocking_app
        [AppInitializer, LocationInitialized 0, BootstrapListener 8, PreActivation,
         PreActivation, BootstrapListener 8] init = w4"
    "run blocking_app
        [AppInitializer, LocationInitialized 0, BootstrapListener 8, PreActivation,
         PreActivation, BootstrapListener 8, BootstrapListener 7] init
     = step blocking_app (BootstrapListener 7) w4"
    by (simp_all add: w_def w2_def w4_def)
  show ?thesis
    unfolding r using t w(5,6) d
    by (simp add: w2_def [symmetric] w4_def [symmetric] paused_def del: run.simps step.simps)
qed

end
